theory Spec2Isabelle
  imports Main "HOL-Library.Sublist"
begin

section \<open>The working copy file service\<close>

text \<open>
  A shallow embedding of \<^verbatim>\<open>WorkingCopyFileService\<close>
  (\<^verbatim>\<open>src/vs/workbench/services/workingCopy/common/workingCopyFileService.ts\<close>):
  the operations \<^verbatim>\<open>move\<close>, \<^verbatim>\<open>copy\<close> and \<^verbatim>\<open>delete\<close>, which announce a
  file operation, soft-revert the dirty working copies it affects, and hand the
  operation to the file service.

  The service is asynchronous, with one logical flow per invocation: every step is
  awaited before the next one starts. The model passes a state through the steps and
  keeps a trace of the calls the service makes on its collaborators, in the order it
  makes them. A rejected promise is a result \<open>Inl e\<close>.
\<close>

subsection \<open>Data\<close>

text \<open>
  A resource identifier. The class \<^verbatim>\<open>URI\<close> is not part of the sources at hand; the
  model keeps the scheme and the path, the path as the list of its segments
  (\<^verbatim>\<open>/a/file.txt\<close> is \<open>[''a'', ''file.txt'']\<close>).
\<close>

record uri =
  scheme :: string
  path :: "string list"

text \<open>
  A working copy, as far as the service looks at it: its resource and whether it is
  dirty. The registry of the working copy service is a list of them; a working copy
  is referred to by its position in the registry, which is its identity (two working
  copies may have the same resource).
\<close>

record working_copy =
  resource :: uri
  dirty :: bool

datatype FileOperation = MOVE | COPY | DELETE

text \<open>The options of \<^verbatim>\<open>delete\<close>: \<^verbatim>\<open>{ useTrash?: boolean, recursive?: boolean }\<close>.\<close>

record del_options =
  useTrash :: "bool option"
  recursive :: "bool option"

text \<open>
  The object literal the service fires on its three emitters:
  \<^verbatim>\<open>{ correlationId, operation, target, source }\<close>, with no \<^verbatim>\<open>source\<close> for a delete.
\<close>

record event =
  correlationId :: nat
  operation :: FileOperation
  target :: uri
  source :: "uri option"

text \<open>
  What the service does to its collaborators, one entry per call: a broadcast on one
  of the three emitters, a call of \<^verbatim>\<open>revert\<close> on a working copy (with the value of
  \<^verbatim>\<open>soft\<close>), the settling of such a call, and a call of the file service.
\<close>

datatype action =
    WillRun event
  | DidFail event
  | DidRun event
  | RevertCall nat bool
  | RevertDone nat
  | RevertFailed nat
  | FsMove uri uri "bool option"
  | FsCopy uri uri "bool option"
  | FsDel uri "del_options option"

text \<open>
  The collaborators, as parameters: which resources the file service can handle, how
  its \<^verbatim>\<open>move\<close>, \<^verbatim>\<open>copy\<close> and \<^verbatim>\<open>del\<close> settle (\<open>'e\<close> is the type of thrown values, \<open>'m\<close>
  the type of \<^verbatim>\<open>IFileStatWithMetadata\<close>), and whether the soft revert of a working copy
  rejects.
\<close>

record ('e, 'm) env =
  canHandleResource :: "uri \<Rightarrow> bool"
  fs_move :: "uri \<Rightarrow> uri \<Rightarrow> bool option \<Rightarrow> 'e + 'm"
  fs_copy :: "uri \<Rightarrow> uri \<Rightarrow> bool option \<Rightarrow> 'e + 'm"
  fs_del :: "uri \<Rightarrow> del_options option \<Rightarrow> 'e + unit"
  revert_rejects :: "nat \<Rightarrow> 'e option"

text \<open>
  The state: the field \<^verbatim>\<open>correlationIds\<close> of the service, the registry of working
  copies, and the trace so far.
\<close>

record state =
  correlationIds :: nat
  workingCopies :: "working_copy list"
  trace :: "action list"

subsection \<open>The counter\<close>

text \<open>
  \<^verbatim>\<open>this.correlationIds++\<close> on a JavaScript number, which is a double. The field
  starts at 0 and is only ever incremented, so the values it takes are whole numbers
  from 0 to \<open>2 ^ 53\<close>: below \<open>2 ^ 53\<close> adding 1 is exact, and \<open>2 ^ 53 + 1\<close> is not a
  double and rounds (to even) back to \<open>2 ^ 53\<close>, where the field stays.
\<close>

definition increment :: "nat \<Rightarrow> nat" where
  "increment n = (if n < 2 ^ 53 then n + 1 else n)"

subsection \<open>Resources\<close>

text \<open>
  Modelled from the spec: \<^verbatim>\<open>isEqual\<close> and \<^verbatim>\<open>isEqualOrParent\<close> of
  \<^verbatim>\<open>vs/base/common/resources\<close> are not part of the sources at hand. The spec has exact
  equality for the first, and for the second "equals the target or is a descendant of
  it (prefix-based path containment, not string prefix - must respect path segment
  boundaries)": the candidate's segments are a prefix of the resource's segments, under
  the same scheme.
\<close>

definition isEqual :: "uri \<Rightarrow> uri \<Rightarrow> bool" where
  "isEqual r1 r2 = (r1 = r2)"

definition isEqualOrParent :: "uri \<Rightarrow> uri \<Rightarrow> bool" where
  "isEqualOrParent base parentCandidate =
     (scheme base = scheme parentCandidate \<and> prefix (path parentCandidate) (path base))"

text \<open>
  The words of the spec, for comparison with the resolver of the code: a resource is
  a descendant of a target when it lies strictly below it, at a segment boundary.
\<close>

definition descendant :: "uri \<Rightarrow> uri \<Rightarrow> bool" where
  "descendant r t = (scheme r = scheme t \<and> strict_prefix (path t) (path r))"

subsection \<open>The dirty working copies of a resource\<close>

text \<open>
  Modelled from the spec: the getter \<^verbatim>\<open>dirtyWorkingCopies\<close> of the working copy
  service is not part of the sources at hand; it gives the working copies of the
  registry that are dirty.
\<close>

definition dirtyWorkingCopies :: "state \<Rightarrow> nat list" where
  "dirtyWorkingCopies s =
     filter (\<lambda>i. dirty (workingCopies s ! i)) [0 ..< length (workingCopies s)]"

definition getDirtyWorkingCopies :: "('e, 'm) env \<Rightarrow> state \<Rightarrow> uri \<Rightarrow> nat list" where
  "getDirtyWorkingCopies env s res =
     filter (\<lambda>d.
       if canHandleResource env res
       then isEqualOrParent (resource (workingCopies s ! d)) res
       else isEqual (resource (workingCopies s ! d)) res)
     (dirtyWorkingCopies s)"

subsection \<open>Broadcasts and reverts\<close>

text \<open>
  Modelled from the spec: \<^verbatim>\<open>AsyncEmitter.fireAsync\<close> of \<^verbatim>\<open>vs/base/common/event\<close> is
  not part of the sources at hand. By the spec a broadcast is awaited, all listeners
  complete before the operation proceeds, and "listeners cannot abort the operation,
  only delay and append async work": the awaited broadcast is one step, which always
  completes. What the listeners do is outside the model.
\<close>

definition fireAsync :: "(event \<Rightarrow> action) \<Rightarrow> event \<Rightarrow> state \<Rightarrow> state" where
  "fireAsync emitter ev s = s\<lparr>trace := trace s @ [emitter ev]\<rparr>"

text \<open>
  Modelled from the spec: \<^verbatim>\<open>IWorkingCopy.revert\<close> is not part of the sources at hand.
  By the spec a soft revert that succeeds clears the dirty flag of the working copy.
\<close>

definition reverted :: "nat \<Rightarrow> state \<Rightarrow> state" where
  "reverted d s =
     s\<lparr>workingCopies := (workingCopies s)[d := (workingCopies s ! d)\<lparr>dirty := False\<rparr>]\<rparr>"

text \<open>
  \<^verbatim>\<open>await Promise.all(dirtyWorkingCopies.map(d => d.revert({ soft: true })))\<close>.
  \<^verbatim>\<open>map\<close> calls \<^verbatim>\<open>revert\<close> on every working copy of the list, in the order of the
  list, before anything is awaited. The calls then settle; the model settles them in
  the order of the list, which is one of the schedules the concurrent calls may
  take. A revert fails by rejecting its promise. \<^verbatim>\<open>Promise.all\<close> is fulfilled when
  all of the calls are, and rejects with the error of the first call that rejects; the
  calls that have not settled by then are not waited for, and the model does not
  follow them further.
\<close>

definition callReverts :: "nat list \<Rightarrow> state \<Rightarrow> state" where
  "callReverts ds s = s\<lparr>trace := trace s @ map (\<lambda>d. RevertCall d True) ds\<rparr>"

fun settleReverts :: "('e, 'm) env \<Rightarrow> nat list \<Rightarrow> state \<Rightarrow> ('e + unit) \<times> state" where
  "settleReverts env [] s = (Inr (), s)"
| "settleReverts env (d # ds) s =
     (case revert_rejects env d of
        Some e \<Rightarrow> (Inl e, s\<lparr>trace := trace s @ [RevertFailed d]\<rparr>)
      | None \<Rightarrow> settleReverts env ds ((reverted d s)\<lparr>trace := trace s @ [RevertDone d]\<rparr>))"

definition revertAll :: "('e, 'm) env \<Rightarrow> nat list \<Rightarrow> state \<Rightarrow> ('e + unit) \<times> state" where
  "revertAll env ds s = settleReverts env ds (callReverts ds s)"

subsection \<open>The operations\<close>

text \<open>
  \<^verbatim>\<open>moveOrCopy\<close> and \<^verbatim>\<open>delete\<close>, statement by statement: the id is taken and the
  counter incremented; will-run is fired and awaited; the dirty working copies are
  resolved and reverted; if a revert rejects, the invocation rejects with its error;
  otherwise the file service is called inside \<^verbatim>\<open>try\<close>; if it throws, did-fail is fired
  and awaited and the error is thrown again; if it returns, did-run is fired and
  awaited and the result is returned. Each of the three events is a literal of its
  own in the source, and in the model.
\<close>

definition moveOrCopy ::
  "('e, 'm) env \<Rightarrow> uri \<Rightarrow> uri \<Rightarrow> bool \<Rightarrow> bool option \<Rightarrow> state \<Rightarrow> ('e + 'm) \<times> state" where
  "moveOrCopy env src tgt move overwrite s =
     (let cid = correlationIds s;
          s1 = s\<lparr>correlationIds := increment (correlationIds s)\<rparr>;
          s2 = fireAsync WillRun
                 \<lparr>correlationId = cid, operation = (if move then MOVE else COPY),
                  target = tgt, source = Some src\<rparr> s1;
          ds = (if move
                then getDirtyWorkingCopies env s2 src @ getDirtyWorkingCopies env s2 tgt
                else getDirtyWorkingCopies env s2 tgt)
      in case revertAll env ds s2 of
           (Inl e, s3) \<Rightarrow> (Inl e, s3)
         | (Inr _, s3) \<Rightarrow>
             (if move
              then (case fs_move env src tgt overwrite of
                      Inl error \<Rightarrow>
                        (Inl error,
                         fireAsync DidFail
                           \<lparr>correlationId = cid, operation = (if move then MOVE else COPY),
                            target = tgt, source = Some src\<rparr>
                           (s3\<lparr>trace := trace s3 @ [FsMove src tgt overwrite]\<rparr>))
                    | Inr stat \<Rightarrow>
                        (Inr stat,
                         fireAsync DidRun
                           \<lparr>correlationId = cid, operation = (if move then MOVE else COPY),
                            target = tgt, source = Some src\<rparr>
                           (s3\<lparr>trace := trace s3 @ [FsMove src tgt overwrite]\<rparr>)))
              else (case fs_copy env src tgt overwrite of
                      Inl error \<Rightarrow>
                        (Inl error,
                         fireAsync DidFail
                           \<lparr>correlationId = cid, operation = (if move then MOVE else COPY),
                            target = tgt, source = Some src\<rparr>
                           (s3\<lparr>trace := trace s3 @ [FsCopy src tgt overwrite]\<rparr>))
                    | Inr stat \<Rightarrow>
                        (Inr stat,
                         fireAsync DidRun
                           \<lparr>correlationId = cid, operation = (if move then MOVE else COPY),
                            target = tgt, source = Some src\<rparr>
                           (s3\<lparr>trace := trace s3 @ [FsCopy src tgt overwrite]\<rparr>)))))"

definition move ::
  "('e, 'm) env \<Rightarrow> uri \<Rightarrow> uri \<Rightarrow> bool option \<Rightarrow> state \<Rightarrow> ('e + 'm) \<times> state" where
  "move env src tgt overwrite s = moveOrCopy env src tgt True overwrite s"

definition copy ::
  "('e, 'm) env \<Rightarrow> uri \<Rightarrow> uri \<Rightarrow> bool option \<Rightarrow> state \<Rightarrow> ('e + 'm) \<times> state" where
  "copy env src tgt overwrite s = moveOrCopy env src tgt False overwrite s"

definition delete ::
  "('e, 'm) env \<Rightarrow> uri \<Rightarrow> del_options option \<Rightarrow> state \<Rightarrow> ('e + unit) \<times> state" where
  "delete env res opts s =
     (let cid = correlationIds s;
          s1 = s\<lparr>correlationIds := increment (correlationIds s)\<rparr>;
          s2 = fireAsync WillRun
                 \<lparr>correlationId = cid, operation = DELETE, target = res, source = None\<rparr> s1;
          ds = getDirtyWorkingCopies env s2 res
      in case revertAll env ds s2 of
           (Inl e, s3) \<Rightarrow> (Inl e, s3)
         | (Inr _, s3) \<Rightarrow>
             (case fs_del env res opts of
                Inl error \<Rightarrow>
                  (Inl error,
                   fireAsync DidFail
                     \<lparr>correlationId = cid, operation = DELETE, target = res, source = None\<rparr>
                     (s3\<lparr>trace := trace s3 @ [FsDel res opts]\<rparr>))
              | Inr _ \<Rightarrow>
                  (Inr (),
                   fireAsync DidRun
                     \<lparr>correlationId = cid, operation = DELETE, target = res, source = None\<rparr>
                     (s3\<lparr>trace := trace s3 @ [FsDel res opts]\<rparr>))))"

subsection \<open>Invocations\<close>

text \<open>
  One call of the public interface. The result of \<^verbatim>\<open>delete\<close>, which returns nothing,
  is \<open>Inr None\<close>.
\<close>

datatype request =
    Move uri uri "bool option"
  | Copy uri uri "bool option"
  | Delete uri "del_options option"

fun invoke :: "('e, 'm) env \<Rightarrow> request \<Rightarrow> state \<Rightarrow> ('e + 'm option) \<times> state" where
  "invoke env (Move src tgt overwrite) s =
     (case move env src tgt overwrite s of (r, s') \<Rightarrow> (map_sum id Some r, s'))"
| "invoke env (Copy src tgt overwrite) s =
     (case copy env src tgt overwrite s of (r, s') \<Rightarrow> (map_sum id Some r, s'))"
| "invoke env (Delete res opts) s =
     (case delete env res opts s of (r, s') \<Rightarrow> (map_sum id (\<lambda>_. None) r, s'))"

text \<open>The state of a service that has just been constructed.\<close>

definition fresh :: "working_copy list \<Rightarrow> state" where
  "fresh wcs = \<lparr>correlationIds = 0, workingCopies = wcs, trace = []\<rparr>"

subsection \<open>Reading a trace\<close>

text \<open>The actions of one invocation: what it appended to the trace.\<close>

definition since :: "state \<Rightarrow> state \<Rightarrow> action list" where
  "since s s' = drop (length (trace s)) (trace s')"

fun isWillRun :: "action \<Rightarrow> bool" where
  "isWillRun (WillRun _) = True"
| "isWillRun _ = False"

fun isDidRun :: "action \<Rightarrow> bool" where
  "isDidRun (DidRun _) = True"
| "isDidRun _ = False"

fun isDidFail :: "action \<Rightarrow> bool" where
  "isDidFail (DidFail _) = True"
| "isDidFail _ = False"

fun isRevertCall :: "action \<Rightarrow> bool" where
  "isRevertCall (RevertCall _ _) = True"
| "isRevertCall _ = False"

fun isRevertSettled :: "action \<Rightarrow> bool" where
  "isRevertSettled (RevertDone _) = True"
| "isRevertSettled (RevertFailed _) = True"
| "isRevertSettled _ = False"

fun isFsCall :: "action \<Rightarrow> bool" where
  "isFsCall (FsMove _ _ _) = True"
| "isFsCall (FsCopy _ _ _) = True"
| "isFsCall (FsDel _ _) = True"
| "isFsCall _ = False"

text \<open>The events broadcast in a trace, on any of the three emitters, in order.\<close>

fun broadcast :: "action \<Rightarrow> event list" where
  "broadcast (WillRun ev) = [ev]"
| "broadcast (DidFail ev) = [ev]"
| "broadcast (DidRun ev) = [ev]"
| "broadcast _ = []"

definition broadcasts :: "action list \<Rightarrow> event list" where
  "broadcasts tr = concat (map broadcast tr)"

text \<open>The correlation ids of the will-run broadcasts of a trace: one per invocation.\<close>

definition allocated :: "action list \<Rightarrow> nat list" where
  "allocated tr = map correlationId (concat (map (\<lambda>a. case a of WillRun ev \<Rightarrow> [ev] | _ \<Rightarrow> []) tr))"

text \<open>The working copies whose \<^verbatim>\<open>revert\<close> a trace calls, one entry per call.\<close>

definition revertCalls :: "action list \<Rightarrow> nat list" where
  "revertCalls tr = concat (map (\<lambda>a. case a of RevertCall d _ \<Rightarrow> [d] | _ \<Rightarrow> []) tr)"

text \<open>
  Every action of the first kind stands before every action of the second kind: at an
  action of the second kind, neither it nor any later action is of the first kind.
\<close>

fun before :: "(action \<Rightarrow> bool) \<Rightarrow> (action \<Rightarrow> bool) \<Rightarrow> action list \<Rightarrow> bool" where
  "before P Q [] = True"
| "before P Q (a # tr) = ((\<not> Q a \<or> (\<not> P a \<and> list_all (\<lambda>x. \<not> P x) tr)) \<and> before P Q tr)"

text \<open>
  A caller that makes one call after the other on the same service, each call against
  collaborators of its own (their answers may change from call to call): the traces of
  the invocations, one per invocation.
\<close>

fun steps :: "(('e, 'm) env \<times> request) list \<Rightarrow> state \<Rightarrow> action list list" where
  "steps [] s = []"
| "steps ((env, req) # rest) s =
     since s (snd (invoke env req s)) # steps rest (snd (invoke env req s))"

subsection \<open>Reading a request\<close>

text \<open>
  The dirty working copies an invocation resolves (the constant
  \<^verbatim>\<open>dirtyWorkingCopies\<close> of \<^verbatim>\<open>moveOrCopy\<close> and of \<^verbatim>\<open>delete\<close>), the call of the file
  service it leads to and how that call settles, and the descriptor of the operation
  under a correlation id.
\<close>

fun resolved :: "('e, 'm) env \<Rightarrow> state \<Rightarrow> request \<Rightarrow> nat list" where
  "resolved env s (Move src tgt _) =
     getDirtyWorkingCopies env s src @ getDirtyWorkingCopies env s tgt"
| "resolved env s (Copy src tgt _) = getDirtyWorkingCopies env s tgt"
| "resolved env s (Delete res _) = getDirtyWorkingCopies env s res"

fun fsCall :: "request \<Rightarrow> action" where
  "fsCall (Move src tgt overwrite) = FsMove src tgt overwrite"
| "fsCall (Copy src tgt overwrite) = FsCopy src tgt overwrite"
| "fsCall (Delete res opts) = FsDel res opts"

fun delegate :: "('e, 'm) env \<Rightarrow> request \<Rightarrow> 'e + 'm option" where
  "delegate env (Move src tgt overwrite) = map_sum id Some (fs_move env src tgt overwrite)"
| "delegate env (Copy src tgt overwrite) = map_sum id Some (fs_copy env src tgt overwrite)"
| "delegate env (Delete res opts) = map_sum id (\<lambda>_. None) (fs_del env res opts)"

fun descriptor :: "request \<Rightarrow> nat \<Rightarrow> event" where
  "descriptor (Move src tgt _) cid =
     \<lparr>correlationId = cid, operation = MOVE, target = tgt, source = Some src\<rparr>"
| "descriptor (Copy src tgt _) cid =
     \<lparr>correlationId = cid, operation = COPY, target = tgt, source = Some src\<rparr>"
| "descriptor (Delete res _) cid =
     \<lparr>correlationId = cid, operation = DELETE, target = res, source = None\<rparr>"

text \<open>The registry after the soft reverts of a list of working copies have succeeded.\<close>

definition cleared :: "nat list \<Rightarrow> working_copy list \<Rightarrow> working_copy list" where
  "cleared ds wcs = fold (\<lambda>d w. w[d := (w ! d)\<lparr>dirty := False\<rparr>]) ds wcs"

subsection \<open>Concrete collaborators and registries\<close>

text \<open>
  Resources under a scheme the file service handles (\<^verbatim>\<open>file\<close>) and under one it does
  not (\<^verbatim>\<open>untitled\<close>); a file service that succeeds, one that returns other metadata, one
  that fails; a working copy whose soft revert rejects; and a registry of five working
  copies.
\<close>

definition fileUri :: "string list \<Rightarrow> uri" where
  "fileUri p = \<lparr>scheme = ''file'', path = p\<rparr>"

definition untitledUri :: "string list \<Rightarrow> uri" where
  "untitledUri p = \<lparr>scheme = ''untitled'', path = p\<rparr>"

definition envOk :: "(string, nat) env" where
  "envOk =
     \<lparr>canHandleResource = (\<lambda>r. scheme r = ''file''),
      fs_move = (\<lambda>_ _ _. Inr 1),
      fs_copy = (\<lambda>_ _ _. Inr 1),
      fs_del = (\<lambda>_ _. Inr ()),
      revert_rejects = (\<lambda>_. None)\<rparr>"

definition envOther :: "(string, nat) env" where
  "envOther = envOk\<lparr>fs_move := (\<lambda>_ _ _. Inr 2), fs_copy := (\<lambda>_ _ _. Inr 2)\<rparr>"

definition envFsFail :: "(string, nat) env" where
  "envFsFail =
     envOk\<lparr>fs_move := (\<lambda>_ _ _. Inl ''not found''),
           fs_copy := (\<lambda>_ _ _. Inl ''not found''),
           fs_del := (\<lambda>_ _. Inl ''not found'')\<rparr>"

definition envRevertFail :: "(string, nat) env" where
  "envRevertFail =
     envOk\<lparr>revert_rejects := (\<lambda>d. if d = 0 then Some ''revert failed'' else None)\<rparr>"

definition registry :: "working_copy list" where
  "registry =
     [\<lparr>resource = fileUri [''a'', ''file.txt''], dirty = True\<rparr>,
      \<lparr>resource = fileUri [''z''], dirty = True\<rparr>,
      \<lparr>resource = fileUri [''ab''], dirty = True\<rparr>,
      \<lparr>resource = fileUri [''a'', ''b.txt''], dirty = False\<rparr>,
      \<lparr>resource = untitledUri [''a'', ''file.txt''], dirty = True\<rparr>]"

section \<open>Facts about the model\<close>

subsection \<open>Broadcasts, the resolver and the registry\<close>

lemma fire_simps [simp]:
  "trace (fireAsync f ev s) = trace s @ [f ev]"
  "workingCopies (fireAsync f ev s) = workingCopies s"
  "correlationIds (fireAsync f ev s) = correlationIds s"
  by (simp_all add: fireAsync_def)

lemma getDirty_upd [simp]:
  "getDirtyWorkingCopies env (s\<lparr>trace := t\<rparr>) r = getDirtyWorkingCopies env s r"
  "getDirtyWorkingCopies env (s\<lparr>correlationIds := c\<rparr>) r = getDirtyWorkingCopies env s r"
  by (simp_all add: getDirtyWorkingCopies_def dirtyWorkingCopies_def)

lemma getDirty_set:
  "d \<in> set (getDirtyWorkingCopies env s r) \<longleftrightarrow>
     d < length (workingCopies s) \<and> dirty (workingCopies s ! d) \<and>
     (if canHandleResource env r then isEqualOrParent (resource (workingCopies s ! d)) r
      else isEqual (resource (workingCopies s ! d)) r)"
  by (auto simp: getDirtyWorkingCopies_def dirtyWorkingCopies_def)

lemma getDirty_distinct: "distinct (getDirtyWorkingCopies env s r)"
  by (simp add: getDirtyWorkingCopies_def dirtyWorkingCopies_def)

lemma cleared_length [simp]: "length (cleared ds wcs) = length wcs"
  unfolding cleared_def by (induction ds arbitrary: wcs) simp_all

lemma cleared_nth:
  "i < length wcs \<Longrightarrow>
   cleared ds wcs ! i = (if i \<in> set ds then (wcs ! i)\<lparr>dirty := False\<rparr> else wcs ! i)"
  unfolding cleared_def
proof (induction ds arbitrary: wcs)
  case Nil
  then show ?case by simp
next
  case (Cons d ds)
  then show ?case by (cases "d = i") auto
qed

subsection \<open>Settling the reverts\<close>

text \<open>
  If no revert of the list rejects, all of them settle, in order, and every working
  copy of the list is clean afterwards. Otherwise the reverts before the first one
  that rejects settle, and the error is that of the first one that rejects.
\<close>

lemma settleReverts_ok:
  "\<forall>d \<in> set ds. revert_rejects env d = None \<Longrightarrow>
   settleReverts env ds s =
     (Inr (), s\<lparr>workingCopies := cleared ds (workingCopies s),
               trace := trace s @ map RevertDone ds\<rparr>)"
  by (induction ds arbitrary: s) (simp_all add: cleared_def reverted_def)

lemma settleReverts_fail:
  "\<forall>d \<in> set pre. revert_rejects env d = None \<Longrightarrow> revert_rejects env d = Some e \<Longrightarrow>
   settleReverts env (pre @ d # post) s =
     (Inl e, s\<lparr>workingCopies := cleared pre (workingCopies s),
               trace := trace s @ map RevertDone pre @ [RevertFailed d]\<rparr>)"
  by (induction pre arbitrary: s) (simp_all add: cleared_def reverted_def)

lemma first_reject:
  assumes "\<exists>d \<in> set ds. revert_rejects env d \<noteq> None"
  shows "\<exists>pre d post e. ds = pre @ d # post
    \<and> (\<forall>x \<in> set pre. revert_rejects env x = None) \<and> revert_rejects env d = Some e"
proof -
  from assms obtain pre d post where "ds = pre @ d # post"
    "revert_rejects env d \<noteq> None" "\<forall>x \<in> set pre. \<not> revert_rejects env x \<noteq> None"
    using split_list_first_prop [of ds "\<lambda>d. revert_rejects env d \<noteq> None"] by blast
  then show ?thesis by auto
qed

subsection \<open>The two shapes of an invocation\<close>

lemma invoke_eq:
  "invoke env (Move src tgt ow) s
     = (map_sum id Some (fst (move env src tgt ow s)), snd (move env src tgt ow s))"
  "invoke env (Copy src tgt ow) s
     = (map_sum id Some (fst (copy env src tgt ow s)), snd (copy env src tgt ow s))"
  "invoke env (Delete res opts) s
     = (map_sum id (\<lambda>_. None) (fst (delete env res opts s)), snd (delete env res opts s))"
  by (simp_all add: split_beta)

lemma invoke_pair: "invoke env req s = (fst (invoke env req s), snd (invoke env req s))"
  by simp

text \<open>
  An invocation takes one of two courses. Either every revert is fulfilled: then the
  file service is called, and its result decides between did-run and did-fail. Or
  some revert rejects: then the invocation ends there with that error.
\<close>

lemma invoke_ok:
  assumes "\<forall>d \<in> set (resolved env s req). revert_rejects env d = None"
  shows "invoke env req s =
    (delegate env req,
     \<lparr>correlationIds = increment (correlationIds s),
      workingCopies = cleared (resolved env s req) (workingCopies s),
      trace = trace s @ WillRun (descriptor req (correlationIds s))
        # map (\<lambda>d. RevertCall d True) (resolved env s req)
        @ map RevertDone (resolved env s req)
        @ [fsCall req,
           (case delegate env req of
              Inl _ \<Rightarrow> DidFail (descriptor req (correlationIds s))
            | Inr _ \<Rightarrow> DidRun (descriptor req (correlationIds s)))]\<rparr>)"
proof (cases req)
  case (Move src tgt ow)
  show ?thesis using assms unfolding Move
    by (cases "fs_move env src tgt ow")
       (simp_all add: move_def moveOrCopy_def Let_def fireAsync_def revertAll_def callReverts_def settleReverts_ok)
next
  case (Copy src tgt ow)
  show ?thesis using assms unfolding Copy
    by (cases "fs_copy env src tgt ow")
       (simp_all add: copy_def moveOrCopy_def Let_def fireAsync_def revertAll_def callReverts_def settleReverts_ok)
next
  case (Delete res opts)
  show ?thesis using assms unfolding Delete
    by (cases "fs_del env res opts")
       (simp_all add: delete_def Let_def fireAsync_def revertAll_def callReverts_def settleReverts_ok)
qed

lemma invoke_reject:
  assumes "resolved env s req = pre @ d # post"
    and "\<forall>x \<in> set pre. revert_rejects env x = None"
    and "revert_rejects env d = Some e"
  shows "invoke env req s =
    (Inl e,
     \<lparr>correlationIds = increment (correlationIds s),
      workingCopies = cleared pre (workingCopies s),
      trace = trace s @ WillRun (descriptor req (correlationIds s))
        # map (\<lambda>d. RevertCall d True) (resolved env s req)
        @ map RevertDone pre @ [RevertFailed d]\<rparr>)"
proof (cases req)
  case (Move src tgt ow)
  from assms(1) have r: "getDirtyWorkingCopies env s src @ getDirtyWorkingCopies env s tgt = pre @ d # post"
    by (simp add: Move)
  have r': "map f (getDirtyWorkingCopies env s src) @ map f (getDirtyWorkingCopies env s tgt) @ zs
      = map f pre @ f d # map f post @ zs" for f :: "nat \<Rightarrow> action" and zs
    using arg_cong[OF r, of "map f"] by simp
  show ?thesis unfolding Move
    by (simp add: move_def moveOrCopy_def Let_def fireAsync_def revertAll_def callReverts_def r r' settleReverts_fail[OF assms(2,3)])
next
  case (Copy src tgt ow)
  from assms(1) have r: "getDirtyWorkingCopies env s tgt = pre @ d # post"
    by (simp add: Copy)
  show ?thesis unfolding Copy
    by (simp add: copy_def moveOrCopy_def Let_def fireAsync_def revertAll_def callReverts_def r settleReverts_fail[OF assms(2,3)])
next
  case (Delete res opts)
  from assms(1) have r: "getDirtyWorkingCopies env s res = pre @ d # post"
    by (simp add: Delete)
  show ?thesis unfolding Delete
    by (simp add: delete_def Let_def fireAsync_def revertAll_def callReverts_def r settleReverts_fail[OF assms(2,3)])
qed

lemma invoke_shape [consumes 1, case_names ok reject]:
  assumes "invoke env req s = (r, s')"
  obtains (ok) "\<forall>d \<in> set (resolved env s req). revert_rejects env d = None"
      "r = delegate env req"
      "correlationIds s' = increment (correlationIds s)"
      "workingCopies s' = cleared (resolved env s req) (workingCopies s)"
      "since s s' = WillRun (descriptor req (correlationIds s))
          # map (\<lambda>d. RevertCall d True) (resolved env s req)
          @ map RevertDone (resolved env s req)
          @ [fsCall req,
             (case delegate env req of
                Inl _ \<Rightarrow> DidFail (descriptor req (correlationIds s))
              | Inr _ \<Rightarrow> DidRun (descriptor req (correlationIds s)))]"
  | (reject) pre d post e where "resolved env s req = pre @ d # post"
      "\<forall>x \<in> set pre. revert_rejects env x = None" "revert_rejects env d = Some e"
      "r = Inl e"
      "correlationIds s' = increment (correlationIds s)"
      "workingCopies s' = cleared pre (workingCopies s)"
      "since s s' = WillRun (descriptor req (correlationIds s))
          # map (\<lambda>d. RevertCall d True) (resolved env s req)
          @ map RevertDone pre @ [RevertFailed d]"
proof (cases "\<forall>d \<in> set (resolved env s req). revert_rejects env d = None")
  case True
  from invoke_ok [OF True] assms show ?thesis
    by (intro ok [OF True]) (simp_all add: since_def)
next
  case False
  then obtain pre d post e where *: "resolved env s req = pre @ d # post"
    "\<forall>x \<in> set pre. revert_rejects env x = None" "revert_rejects env d = Some e"
    using first_reject [of "resolved env s req" env] by blast
  from invoke_reject [OF *] assms show ?thesis
    by (intro reject [OF *]) (simp_all add: since_def)
qed

lemma fsCall_kind [simp]:
  "isFsCall (fsCall req)" "\<not> isWillRun (fsCall req)" "\<not> isDidRun (fsCall req)"
  "\<not> isDidFail (fsCall req)" "\<not> isRevertCall (fsCall req)" "\<not> isRevertSettled (fsCall req)"
  "broadcast (fsCall req) = []"
  "(case fsCall req of RevertCall d x \<Rightarrow> f d x | _ \<Rightarrow> c) = c"
  "(case fsCall req of WillRun ev \<Rightarrow> g ev | _ \<Rightarrow> c) = c"
  "fsCall req \<noteq> RevertCall d b" "fsCall req \<noteq> RevertDone d" "fsCall req \<noteq> RevertFailed d"
  "fsCall req \<noteq> WillRun ev" "fsCall req \<noteq> DidRun ev" "fsCall req \<noteq> DidFail ev"
  by (cases req; simp)+

lemma fin_kind:
  "isDidFail (case x of Inl _ \<Rightarrow> DidFail ev | Inr _ \<Rightarrow> DidRun ev) \<longleftrightarrow> (\<exists>e. x = Inl e)"
  "isDidRun (case x of Inl _ \<Rightarrow> DidFail ev | Inr _ \<Rightarrow> DidRun ev) \<longleftrightarrow> (\<exists>m. x = Inr m)"
  "\<not> isFsCall (case x of Inl _ \<Rightarrow> DidFail ev | Inr _ \<Rightarrow> DidRun ev)"
  "\<not> isWillRun (case x of Inl _ \<Rightarrow> DidFail ev | Inr _ \<Rightarrow> DidRun ev)"
  "\<not> isRevertCall (case x of Inl _ \<Rightarrow> DidFail ev | Inr _ \<Rightarrow> DidRun ev)"
  "\<not> isRevertSettled (case x of Inl _ \<Rightarrow> DidFail ev | Inr _ \<Rightarrow> DidRun ev)"
  "(case (case x of Inl _ \<Rightarrow> DidFail ev | Inr _ \<Rightarrow> DidRun ev) of
      RevertCall d b \<Rightarrow> f d b | _ \<Rightarrow> c) = c"
  by (cases x; simp)+

lemma descriptor_id [simp]: "correlationId (descriptor req c) = c"
  by (cases req) simp_all

subsection \<open>Reading the trace of an invocation\<close>

lemma revertCalls_simps [simp]:
  "revertCalls [] = []"
  "revertCalls (a # tr) = (case a of RevertCall d _ \<Rightarrow> [d] | _ \<Rightarrow> []) @ revertCalls tr"
  "revertCalls (xs @ ys) = revertCalls xs @ revertCalls ys"
  "revertCalls (map (\<lambda>d. RevertCall d b) ds) = ds"
  "revertCalls (map RevertDone ds) = []"
  by (induction ds) (simp_all add: revertCalls_def)

lemma broadcasts_simps [simp]:
  "broadcasts [] = []"
  "broadcasts (a # tr) = broadcast a @ broadcasts tr"
  "broadcasts (xs @ ys) = broadcasts xs @ broadcasts ys"
  "broadcasts (map (\<lambda>d. RevertCall d b) ds) = []"
  "broadcasts (map RevertDone ds) = []"
  by (induction ds) (simp_all add: broadcasts_def)

lemma allocated_simps [simp]:
  "allocated [] = []"
  "allocated (a # tr) = (case a of WillRun ev \<Rightarrow> [correlationId ev] | _ \<Rightarrow> []) @ allocated tr"
  "allocated (xs @ ys) = allocated xs @ allocated ys"
  "allocated (map (\<lambda>d. RevertCall d b) ds) = []"
  "allocated (map RevertDone ds) = []"
  by (induction ds) (simp_all add: allocated_def split: action.splits)



lemma invoke_length:
  assumes "invoke env req s = (r, s')"
  shows "length (workingCopies s') = length (workingCopies s)"
  using assms by (cases rule: invoke_shape) simp_all

lemma invoke_counter: "correlationIds (snd (invoke env req s)) = increment (correlationIds s)"
  using invoke_pair [of env req s] by (cases rule: invoke_shape) simp_all

lemma invoke_allocated: "allocated (since s (snd (invoke env req s))) = [correlationIds s]"
  using invoke_pair [of env req s]
  by (cases rule: invoke_shape) (simp_all split: sum.splits del: resolved.simps)

lemma invoke_broadcasts:
  "ev \<in> set (broadcasts (since s (snd (invoke env req s)))) \<Longrightarrow> correlationId ev = correlationIds s"
  using invoke_pair [of env req s]
  by (cases rule: invoke_shape) (auto split: sum.splits simp del: resolved.simps)

lemma count_revertCall:
  "count_list (map (\<lambda>d. RevertCall d True) ds) (RevertCall d True) = count_list ds d"
  by (induction ds) simp_all

lemma count_distinct: "distinct xs \<Longrightarrow> x \<in> set xs \<Longrightarrow> count_list xs x = 1"
  by (induction xs) auto

text \<open>
  A working copy that the resolver selects for the source and for the target of a move
  stands in both halves of the list the move reverts.
\<close>

lemma move_count_selected:
  assumes "d \<in> set (getDirtyWorkingCopies env s src)"
    and "d \<in> set (getDirtyWorkingCopies env s tgt)"
  shows "count_list (since s (snd (move env src tgt ow s))) (RevertCall d True) = 2"
proof -
  let ?m = "move env src tgt ow s"
  have m: "invoke env (Move src tgt ow) s = (map_sum id Some (fst ?m), snd ?m)"
    by (rule invoke_eq)
  have two: "count_list (map (\<lambda>d. RevertCall d True) (resolved env s (Move src tgt ow)))
      (RevertCall d True) = 2"
    using assms by (simp add: count_revertCall count_distinct getDirty_distinct)
  have none: "count_list (map RevertDone ds) (RevertCall d True) = 0" for ds
    by (induction ds) simp_all
  from m show ?thesis
  proof (cases rule: invoke_shape)
    case ok
    from ok(5) show ?thesis using two none
      by (simp split: sum.splits del: resolved.simps)
  next
    case (reject pre d' post e)
    from reject(7) show ?thesis using two none
      by (simp del: resolved.simps)
  qed
qed

subsection \<open>Order in a trace\<close>

text \<open>
  \<open>before P Q\<close> in terms of positions: an action of the first kind stands at a smaller
  position than an action of the second kind.
\<close>

lemma before_nth:
  "before P Q tr \<Longrightarrow> j < length tr \<Longrightarrow> k < length tr \<Longrightarrow> P (tr ! j) \<Longrightarrow> Q (tr ! k) \<Longrightarrow> j < k"
proof (induction tr arbitrary: j k)
  case Nil
  then show ?case by simp
next
  case (Cons a tr)
  show ?case
  proof (cases k)
    case 0
    with Cons.prems have "\<not> P a" "list_all (\<lambda>x. \<not> P x) tr" by auto
    with Cons.prems show ?thesis by (cases j) (auto simp: list_all_length)
  next
    case (Suc k')
    show ?thesis
    proof (cases j)
      case 0
      then show ?thesis using Suc by simp
    next
      case (Suc j')
      with Cons \<open>k = Suc k'\<close> show ?thesis by auto
    qed
  qed
qed

lemma before_append:
  "before P Q (xs @ ys) =
     (before P Q xs \<and> before P Q ys \<and> ((\<exists>x \<in> set xs. Q x) \<longrightarrow> (\<forall>y \<in> set ys. \<not> P y)))"
  by (induction xs) (auto simp: list_all_iff)

lemma before_none:
  "\<forall>x \<in> set tr. \<not> Q x \<Longrightarrow> before P Q tr"
  "\<forall>x \<in> set tr. \<not> P x \<Longrightarrow> before P Q tr"
  by (induction tr) (auto simp: list_all_iff)

lemma before_reverts [simp]:
  "before P isFsCall (map (\<lambda>d. RevertCall d b) ds)"
  "before P isFsCall (map RevertDone ds)"
  "before isWillRun Q (map (\<lambda>d. RevertCall d b) ds)"
  "before isWillRun Q (map RevertDone ds)"
  by (simp_all add: before_none(1) before_none(2))

subsection \<open>Sequences of invocations and the counter\<close>

lemma steps_length [simp]: "length (steps calls s) = length calls"
  by (induction calls s rule: steps.induct) simp_all

lemma steps_broadcasts:
  "tr \<in> set (steps calls s) \<Longrightarrow> ev \<in> set (broadcasts tr) \<Longrightarrow> allocated tr = [correlationId ev]"
  by (induction calls s rule: steps.induct) (auto simp: invoke_allocated invoke_broadcasts)

lemma map_upt_shift: "map f [0 ..< Suc n] = f 0 # map (\<lambda>k. f (Suc k)) [0 ..< n]"
proof -
  have "[0 ..< Suc n] = 0 # map Suc [0 ..< n]"
    by (simp add: upt_conv_Cons map_Suc_upt del: upt_Suc)
  then show ?thesis by (simp add: comp_def del: upt_Suc)
qed

text \<open>
  The invocation number \<open>k\<close> of a caller allocates the value of the counter after
  \<open>k\<close> increments; the counter is exact below \<open>2 ^ 53\<close> and stays at \<open>2 ^ 53\<close> from
  there on.
\<close>

lemma steps_allocated:
  "map allocated (steps calls s)
     = map (\<lambda>k. [(increment ^^ k) (correlationIds s)]) [0 ..< length calls]"
proof (induction calls s rule: steps.induct)
  case (1 s)
  then show ?case by simp
next
  case (2 env req rest s)
  show ?case
    by (simp add: "2.IH" invoke_allocated invoke_counter map_upt_shift funpow_swap1 del: upt_Suc)
qed

lemma increment_exact: "c + k \<le> 2 ^ 53 \<Longrightarrow> (increment ^^ k) c = c + k"
  by (induction k) (simp_all add: increment_def)

lemma increment_saturates: "c \<le> 2 ^ 53 \<Longrightarrow> (increment ^^ k) c = min (c + k) (2 ^ 53)"
  by (induction k) (auto simp: increment_def)

subsection \<open>Evaluation on concrete inputs\<close>

lemmas ev_defs = move_def copy_def delete_def moveOrCopy_def Let_def fireAsync_def revertAll_def
  callReverts_def reverted_def getDirtyWorkingCopies_def dirtyWorkingCopies_def isEqual_def
  isEqualOrParent_def descendant_def increment_def fresh_def registry_def fileUri_def untitledUri_def
  envOk_def envOther_def envFsFail_def envRevertFail_def since_def revertCalls_def
  broadcasts_def allocated_def

section \<open>The claims\<close>

subsection \<open>C1: delete reverts the dirty working copies under the resource\<close>

text \<open>
  Claim C1, as amended. When \<^verbatim>\<open>delete(P)\<close> returns successfully, every working copy
  that was dirty and whose resource equals \<open>P\<close>, or is a descendant of \<open>P\<close> where the
  file service can handle \<open>P\<close>, has been soft-reverted (the revert was called with
  \<^verbatim>\<open>soft: true\<close> and was fulfilled), and its dirty flag is false afterwards. The
  registry keeps its length and the working copy its resource.
\<close>

theorem delete_reverts_dirty:
  assumes "delete env P opts s = (Inr (), s')"
    and "d < length (workingCopies s)"
    and "dirty (workingCopies s ! d)"
    and "resource (workingCopies s ! d) = P
         \<or> (canHandleResource env P \<and> descendant (resource (workingCopies s ! d)) P)"
  shows "RevertCall d True \<in> set (since s s') \<and> RevertDone d \<in> set (since s s')
         \<and> length (workingCopies s') = length (workingCopies s)
         \<and> resource (workingCopies s' ! d) = resource (workingCopies s ! d)
         \<and> \<not> dirty (workingCopies s' ! d)"
proof -
  from assms(1) have inv: "invoke env (Delete P opts) s = (Inr None, s')"
    by simp
  from assms(2-4) have d: "d \<in> set (resolved env s (Delete P opts))"
    by (auto simp: getDirty_set isEqualOrParent_def isEqual_def descendant_def strict_prefix_def)
  from inv show ?thesis
  proof (cases rule: invoke_shape)
    case ok
    with d assms(2) show ?thesis
      by (simp add: cleared_nth image_iff del: resolved.simps)
  next
    case (reject pre d' post e)
    then show ?thesis by simp
  qed
qed

text \<open>
  The dirty working copy at \<^verbatim>\<open>file:/a/file.txt\<close> and a delete of \<^verbatim>\<open>file:/a\<close>.
\<close>

theorem delete_reverts_dirty_witness:
  "delete envOk (fileUri [''a'']) None (fresh registry)
     = (Inr (), snd (delete envOk (fileUri [''a'']) None (fresh registry)))
   \<and> (0::nat) < length (workingCopies (fresh registry))
   \<and> dirty (workingCopies (fresh registry) ! 0)
   \<and> canHandleResource envOk (fileUri [''a''])
   \<and> descendant (resource (workingCopies (fresh registry) ! 0)) (fileUri [''a''])
   \<and> \<not> dirty (workingCopies (snd (delete envOk (fileUri [''a'']) None (fresh registry))) ! 0)"
proof -
  let ?s' = "snd (delete envOk (fileUri [''a'']) None (fresh registry))"
  have h1: "delete envOk (fileUri [''a'']) None (fresh registry) = (Inr (), ?s')"
    by (simp add: ev_defs)
  have h2: "(0::nat) < length (workingCopies (fresh registry))"
    and h3: "dirty (workingCopies (fresh registry) ! 0)"
    and h4: "canHandleResource envOk (fileUri [''a''])"
    and h5: "descendant (resource (workingCopies (fresh registry) ! 0)) (fileUri [''a''])"
    by (simp_all add: ev_defs)
  from h4 h5 have h6: "resource (workingCopies (fresh registry) ! 0) = fileUri [''a'']
     \<or> (canHandleResource envOk (fileUri [''a''])
         \<and> descendant (resource (workingCopies (fresh registry) ! 0)) (fileUri [''a'']))"
    by simp
  from delete_reverts_dirty [OF h1 h2 h3 h6] have "\<not> dirty (workingCopies ?s' ! 0)"
    by simp
  with h1 h2 h3 h4 h5 show ?thesis by simp
qed

text \<open>
  The claim as it stands, for every descendant, fails: under a scheme the file service
  cannot handle, \<^verbatim>\<open>getDirtyWorkingCopies\<close> compares with \<^verbatim>\<open>isEqual\<close> only. After a
  successful delete of \<^verbatim>\<open>untitled:/a\<close> the dirty working copy at
  \<^verbatim>\<open>untitled:/a/file.txt\<close> is still dirty.
\<close>

theorem delete_descendant_counterexample:
  "fst (delete envOk (untitledUri [''a'']) None (fresh registry)) = Inr ()
   \<and> dirty (workingCopies (fresh registry) ! 4)
   \<and> descendant (resource (workingCopies (fresh registry) ! 4)) (untitledUri [''a''])
   \<and> dirty (workingCopies (snd (delete envOk (untitledUri [''a'']) None (fresh registry))) ! 4)"
  by (simp add: ev_defs)

subsection \<open>C2: the working copies move and copy revert\<close>



subsection \<open>C3: will-run, then the reverts, then the disk\<close>

text \<open>
  Claim C3. In every invocation of move, copy or delete the will-run broadcast is the
  first action, so it is complete before any revert is called; the reverts called are
  those of the resolved dirty working copies; no revert is called or settles after the
  call of the file service; and if the file service is called at all, the revert of
  every resolved working copy has been fulfilled before.
\<close>

theorem will_run_reverts_disk_order:
  assumes "invoke env req s = (r, s')"
  shows "(\<exists>ev rest. since s s' = WillRun ev # rest)
    \<and> revertCalls (since s s') = resolved env s req
    \<and> before isWillRun isRevertCall (since s s')
    \<and> before isWillRun isFsCall (since s s')
    \<and> before isRevertCall isFsCall (since s s')
    \<and> before isRevertSettled isFsCall (since s s')
    \<and> ((\<exists>a \<in> set (since s s'). isFsCall a) \<longrightarrow>
         (\<forall>d \<in> set (resolved env s req). RevertDone d \<in> set (since s s')))"
  using assms
proof (cases rule: invoke_shape)
  case ok
  from ok(5) show ?thesis
    by (auto simp: before_append list_all_iff fin_kind simp del: resolved.simps)
next
  case (reject pre d post e)
  from reject(7) show ?thesis
    by (auto simp: before_append list_all_iff simp del: resolved.simps)
qed

text \<open>
  A move from \<^verbatim>\<open>file:/a\<close> to \<^verbatim>\<open>file:/z\<close>, and its trace.
\<close>

theorem will_run_reverts_disk_order_witness:
  "invoke envOk (Move (fileUri [''a'']) (fileUri [''z'']) None) (fresh registry)
     = (Inr (Some 1), snd (invoke envOk (Move (fileUri [''a'']) (fileUri [''z'']) None) (fresh registry)))
   \<and> since (fresh registry)
        (snd (invoke envOk (Move (fileUri [''a'']) (fileUri [''z'']) None) (fresh registry)))
     = [WillRun \<lparr>correlationId = 0, operation = MOVE, target = fileUri [''z''],
                 source = Some (fileUri [''a''])\<rparr>,
        RevertCall 0 True, RevertCall 1 True, RevertDone 0, RevertDone 1,
        FsMove (fileUri [''a'']) (fileUri [''z'']) None,
        DidRun \<lparr>correlationId = 0, operation = MOVE, target = fileUri [''z''],
                source = Some (fileUri [''a''])\<rparr>]
   \<and> before isWillRun isRevertCall (since (fresh registry)
        (snd (invoke envOk (Move (fileUri [''a'']) (fileUri [''z'']) None) (fresh registry))))
   \<and> before isRevertSettled isFsCall (since (fresh registry)
        (snd (invoke envOk (Move (fileUri [''a'']) (fileUri [''z'']) None) (fresh registry))))"
proof -
  let ?req = "Move (fileUri [''a'']) (fileUri [''z'']) None"
  let ?s' = "snd (invoke envOk ?req (fresh registry))"
  have h: "invoke envOk ?req (fresh registry) = (Inr (Some 1), ?s')"
    by (simp add: ev_defs)
  have tr: "since (fresh registry) ?s'
     = [WillRun \<lparr>correlationId = 0, operation = MOVE, target = fileUri [''z''],
                 source = Some (fileUri [''a''])\<rparr>,
        RevertCall 0 True, RevertCall 1 True, RevertDone 0, RevertDone 1,
        FsMove (fileUri [''a'']) (fileUri [''z'']) None,
        DidRun \<lparr>correlationId = 0, operation = MOVE, target = fileUri [''z''],
                source = Some (fileUri [''a''])\<rparr>]"
    by (simp add: ev_defs)
  from will_run_reverts_disk_order [OF h]
  have "before isWillRun isRevertCall (since (fresh registry) ?s')"
    "before isRevertSettled isFsCall (since (fresh registry) ?s')"
    by blast+
  with h tr show ?thesis by blast
qed

subsection \<open>C4: a failing file service\<close>

text \<open>
  Claim C4. In an invocation of move, copy or delete in which the file service is called
  and throws \<open>e\<close>: the trace of the invocation ends with the call of the file service
  followed by the did-fail broadcast, which carries the event of the will-run broadcast
  (the same correlation id, operation, target and source); nothing is broadcast in
  between; the invocation rejects with \<open>e\<close> itself; and every resolved working copy has
  been reverted and is still clean when the invocation ends.
\<close>

theorem delegate_failure:
  assumes "invoke env req s = (r, s')"
    and "fsCall req \<in> set (since s s')"
    and "delegate env req = Inl e"
  shows "r = Inl e
    \<and> (\<exists>mid. since s s' = WillRun (descriptor req (correlationIds s)) # mid
                  @ [fsCall req, DidFail (descriptor req (correlationIds s))]
             \<and> (\<forall>a \<in> set mid. broadcast a = [] \<and> \<not> isFsCall a))
    \<and> (\<forall>d \<in> set (resolved env s req).
          RevertDone d \<in> set (since s s') \<and> d < length (workingCopies s')
          \<and> \<not> dirty (workingCopies s' ! d))"
  using assms(1)
proof (cases rule: invoke_shape)
  case ok
  have in_range: "d < length (workingCopies s)" if "d \<in> set (resolved env s req)" for d
    using that by (cases req) (auto simp: getDirty_set)
  let ?mid = "map (\<lambda>d. RevertCall d True) (resolved env s req) @ map RevertDone (resolved env s req)"
  from ok(5) assms(3)
  have "since s s' = WillRun (descriptor req (correlationIds s)) # ?mid
          @ [fsCall req, DidFail (descriptor req (correlationIds s))]"
    by (simp del: resolved.simps)
  moreover have "\<forall>a \<in> set ?mid. broadcast a = [] \<and> \<not> isFsCall a"
    by (auto simp del: resolved.simps)
  ultimately have shape: "\<exists>mid. since s s' = WillRun (descriptor req (correlationIds s)) # mid
                  @ [fsCall req, DidFail (descriptor req (correlationIds s))]
             \<and> (\<forall>a \<in> set mid. broadcast a = [] \<and> \<not> isFsCall a)"
    by blast
  from ok(2) assms(3) have "r = Inl e" by simp
  moreover have "\<forall>d \<in> set (resolved env s req).
          RevertDone d \<in> set (since s s') \<and> d < length (workingCopies s')
          \<and> \<not> dirty (workingCopies s' ! d)"
    using ok(4,5) in_range by (auto simp: cleared_nth simp del: resolved.simps)
  ultimately show ?thesis using shape by blast
next
  case (reject pre d post e')
  from reject(7) assms(2) show ?thesis
    by (auto simp del: resolved.simps)
qed

text \<open>
  A delete of \<^verbatim>\<open>file:/a/file.txt\<close> with a file service that throws \<open>''not found''\<close>.
\<close>

theorem delegate_failure_witness:
  "invoke envFsFail (Delete (fileUri [''a'', ''file.txt'']) None) (fresh registry)
     = (Inl ''not found'',
        snd (invoke envFsFail (Delete (fileUri [''a'', ''file.txt'']) None) (fresh registry)))
   \<and> fsCall (Delete (fileUri [''a'', ''file.txt'']) None)
       \<in> set (since (fresh registry)
           (snd (invoke envFsFail (Delete (fileUri [''a'', ''file.txt'']) None) (fresh registry))))
   \<and> delegate envFsFail (Delete (fileUri [''a'', ''file.txt'']) None) = Inl ''not found''
   \<and> resolved envFsFail (fresh registry) (Delete (fileUri [''a'', ''file.txt'']) None) = [0]
   \<and> last (since (fresh registry)
        (snd (invoke envFsFail (Delete (fileUri [''a'', ''file.txt'']) None) (fresh registry))))
      = DidFail \<lparr>correlationId = 0, operation = DELETE, target = fileUri [''a'', ''file.txt''],
                 source = None\<rparr>
   \<and> \<not> dirty (workingCopies
        (snd (invoke envFsFail (Delete (fileUri [''a'', ''file.txt'']) None) (fresh registry))) ! 0)"
proof -
  let ?req = "Delete (fileUri [''a'', ''file.txt'']) None"
  let ?s' = "snd (invoke envFsFail ?req (fresh registry))"
  have h1: "invoke envFsFail ?req (fresh registry) = (Inl ''not found'', ?s')"
    and h2: "fsCall ?req \<in> set (since (fresh registry) ?s')"
    and h3: "delegate envFsFail ?req = Inl ''not found''"
    and r: "resolved envFsFail (fresh registry) ?req = [0]"
    by (simp_all add: ev_defs)
  note c = delegate_failure [OF h1 h2 h3]
  from c obtain mid where "since (fresh registry) ?s'
      = WillRun (descriptor ?req (correlationIds (fresh registry))) # mid
        @ [fsCall ?req, DidFail (descriptor ?req (correlationIds (fresh registry)))]"
    by blast
  then have l: "last (since (fresh registry) ?s')
      = DidFail \<lparr>correlationId = 0, operation = DELETE, target = fileUri [''a'', ''file.txt''],
                 source = None\<rparr>"
    by (simp add: fresh_def)
  from c r have "\<not> dirty (workingCopies ?s' ! 0)"
    by simp
  with h1 h2 h3 r l show ?thesis by blast
qed

subsection \<open>C5: did-run or did-fail, never both\<close>

text \<open>
  Claim C5. In an invocation of move, copy or delete that reaches the call of the file
  service, that call is the last action but one, the action after it is the only
  did-run or did-fail broadcast of the invocation, and it is did-run exactly if the
  file service succeeds and did-fail exactly if it throws.
\<close>

theorem did_run_xor_did_fail:
  assumes "invoke env req s = (r, s')"
    and "\<exists>a \<in> set (since s s'). isFsCall a"
  shows "\<exists>pre a. since s s' = pre @ [fsCall req, a]
    \<and> (\<forall>x \<in> set pre. \<not> isFsCall x \<and> \<not> isDidRun x \<and> \<not> isDidFail x)
    \<and> (isDidRun a \<longleftrightarrow> (\<exists>m. delegate env req = Inr m))
    \<and> (isDidFail a \<longleftrightarrow> (\<exists>e. delegate env req = Inl e))
    \<and> (isDidRun a \<noteq> isDidFail a)"
  using assms(1)
proof (cases rule: invoke_shape)
  case ok
  let ?pre = "WillRun (descriptor req (correlationIds s))
      # map (\<lambda>d. RevertCall d True) (resolved env s req) @ map RevertDone (resolved env s req)"
  let ?a = "case delegate env req of
              Inl _ \<Rightarrow> DidFail (descriptor req (correlationIds s))
            | Inr _ \<Rightarrow> DidRun (descriptor req (correlationIds s))"
  from ok(5) have "since s s' = ?pre @ [fsCall req, ?a]"
    by (simp del: resolved.simps)
  moreover have "\<forall>x \<in> set ?pre. \<not> isFsCall x \<and> \<not> isDidRun x \<and> \<not> isDidFail x"
    by (auto simp del: resolved.simps)
  moreover have "isDidRun ?a \<longleftrightarrow> (\<exists>m. delegate env req = Inr m)"
    "isDidFail ?a \<longleftrightarrow> (\<exists>e. delegate env req = Inl e)" "isDidRun ?a \<noteq> isDidFail ?a"
    by (cases "delegate env req"; simp)+
  ultimately show ?thesis by blast
next
  case (reject pre d post e)
  from reject(7) assms(2) show ?thesis
    by (auto simp del: resolved.simps)
qed

text \<open>
  A copy from \<^verbatim>\<open>file:/a\<close> to \<^verbatim>\<open>file:/z\<close> with a file service that succeeds.
\<close>

theorem did_run_xor_did_fail_witness:
  "invoke envOk (Copy (fileUri [''a'']) (fileUri [''z'']) None) (fresh registry)
     = (Inr (Some 1), snd (invoke envOk (Copy (fileUri [''a'']) (fileUri [''z'']) None) (fresh registry)))
   \<and> (\<exists>a \<in> set (since (fresh registry)
          (snd (invoke envOk (Copy (fileUri [''a'']) (fileUri [''z'']) None) (fresh registry)))).
        isFsCall a)
   \<and> delegate envOk (Copy (fileUri [''a'']) (fileUri [''z'']) None) = Inr (Some 1)
   \<and> (\<exists>pre a. since (fresh registry)
          (snd (invoke envOk (Copy (fileUri [''a'']) (fileUri [''z'']) None) (fresh registry)))
        = pre @ [FsCopy (fileUri [''a'']) (fileUri [''z'']) None, a]
        \<and> isDidRun a \<and> \<not> isDidFail a)"
proof -
  let ?req = "Copy (fileUri [''a'']) (fileUri [''z'']) None"
  let ?s' = "snd (invoke envOk ?req (fresh registry))"
  have h1: "invoke envOk ?req (fresh registry) = (Inr (Some 1), ?s')"
    and h2: "\<exists>a \<in> set (since (fresh registry) ?s'). isFsCall a"
    and h3: "delegate envOk ?req = Inr (Some 1)"
    by (simp_all add: ev_defs)
  from did_run_xor_did_fail [OF h1 h2] h3
  have "\<exists>pre a. since (fresh registry) ?s' = pre @ [FsCopy (fileUri [''a'']) (fileUri [''z'']) None, a]
        \<and> isDidRun a \<and> \<not> isDidFail a"
    by auto
  with h1 h2 h3 show ?thesis by blast
qed

subsection \<open>C6: the resolver\<close>

text \<open>
  Claim C6. Where the file service can handle the target, \<^verbatim>\<open>getDirtyWorkingCopies\<close>
  selects exactly the dirty working copies whose resource equals the target or is a
  descendant of it at a path segment boundary; where it cannot, it selects exactly the
  dirty working copies whose resource equals the target. Every working copy is
  selected at most once.
\<close>

theorem getDirtyWorkingCopies_selects:
  "set (getDirtyWorkingCopies env s t) =
     {d. d < length (workingCopies s) \<and> dirty (workingCopies s ! d) \<and>
         (if canHandleResource env t
          then resource (workingCopies s ! d) = t \<or> descendant (resource (workingCopies s ! d)) t
          else resource (workingCopies s ! d) = t)}
   \<and> distinct (getDirtyWorkingCopies env s t)"
  by (auto simp: getDirty_set getDirty_distinct isEqualOrParent_def isEqual_def descendant_def
      strict_prefix_def)

text \<open>
  Under \<^verbatim>\<open>file\<close>, the target \<^verbatim>\<open>/a\<close> selects the working copy at \<^verbatim>\<open>/a/file.txt\<close>, and
  neither the one at \<^verbatim>\<open>/ab\<close> nor the clean one at \<^verbatim>\<open>/a/b.txt\<close>. Under \<^verbatim>\<open>untitled\<close>,
  which the file service does not handle, \<^verbatim>\<open>/a\<close> selects nothing and \<^verbatim>\<open>/a/file.txt\<close>
  selects the working copy at that resource.
\<close>

theorem getDirtyWorkingCopies_selects_witness:
  "canHandleResource envOk (fileUri [''a''])
   \<and> set (getDirtyWorkingCopies envOk (fresh registry) (fileUri [''a''])) = {0}
   \<and> \<not> canHandleResource envOk (untitledUri [''a''])
   \<and> set (getDirtyWorkingCopies envOk (fresh registry) (untitledUri [''a''])) = {}
   \<and> set (getDirtyWorkingCopies envOk (fresh registry) (untitledUri [''a'', ''file.txt''])) = {4}"
  using getDirtyWorkingCopies_selects [of envOk "fresh registry" "fileUri [''a'']"]
  by (simp add: ev_defs)

subsection \<open>C7: correlation ids\<close>

text \<open>
  Claim C7, as amended. As long as the counter is at most \<open>2 ^ 53\<close> when an invocation
  starts (on a new service: for the first \<open>2 ^ 53 + 1\<close> invocations), invocation number
  \<open>k\<close> of a caller of one service allocates the correlation id \<open>c + k\<close>, where \<open>c\<close> is
  the counter at the start: the ids are strictly increasing in the order of the
  invocations, and unique. With no condition on the counter, every broadcast of an
  invocation (will-run, did-run, did-fail) carries the id of that invocation.
\<close>

theorem correlation_ids_increase:
  assumes "correlationIds s + length calls \<le> 2 ^ 53 + 1"
  shows "map allocated (steps calls s)
           = map (\<lambda>k. [correlationIds s + k]) [0 ..< length calls]
    \<and> sorted_wrt (<) (concat (map allocated (steps calls s)))
    \<and> distinct (concat (map allocated (steps calls s)))
    \<and> (\<forall>tr \<in> set (steps calls s). \<forall>ev \<in> set (broadcasts tr). allocated tr = [correlationId ev])"
proof -
  have ids: "map allocated (steps calls s)
      = map (\<lambda>k. [correlationIds s + k]) [0 ..< length calls]"
    unfolding steps_allocated using assms by (intro map_cong refl) (simp add: increment_exact)
  have "concat (map (\<lambda>k. [c + k]) [0 ..< n]) = map (\<lambda>k. c + k) [0 ..< n]" for c n :: nat
    by (induction n) simp_all
  then have flat: "concat (map allocated (steps calls s))
      = map (\<lambda>k. correlationIds s + k) [0 ..< length calls]"
    by (simp add: ids)
  have "sorted_wrt (<) (map (\<lambda>k. c + k) [0 ..< n])" for c n :: nat
    by (simp add: sorted_wrt_map sorted_wrt_upt del: upt_Suc) 
  moreover have "distinct (map (\<lambda>k. c + k) [0 ..< n])" for c n :: nat
    by (simp add: distinct_map inj_on_def del: upt_Suc)
  ultimately show ?thesis using ids flat steps_broadcasts by auto 
qed

text \<open>
  Three invocations on a new service: a delete, a move whose file service call throws,
  and a copy.
\<close>

theorem correlation_ids_increase_witness:
  "correlationIds (fresh registry) + length [(envOk, Delete (fileUri [''a'']) None),
       (envFsFail, Move (fileUri [''z'']) (fileUri [''y'']) None),
       (envRevertFail, Copy (fileUri [''z'']) (fileUri [''a'', ''file.txt'']) (Some True))] \<le> 2 ^ 53 + 1
   \<and> map allocated (steps [(envOk, Delete (fileUri [''a'']) None),
       (envFsFail, Move (fileUri [''z'']) (fileUri [''y'']) None),
       (envRevertFail, Copy (fileUri [''z'']) (fileUri [''a'', ''file.txt'']) (Some True))]
       (fresh registry)) = [[0], [1], [2]]"
proof -
  let ?calls = "[(envOk, Delete (fileUri [''a'']) None),
       (envFsFail, Move (fileUri [''z'']) (fileUri [''y'']) None),
       (envRevertFail, Copy (fileUri [''z'']) (fileUri [''a'', ''file.txt'']) (Some True))]"
  have h: "correlationIds (fresh registry) + length ?calls \<le> 2 ^ 53 + 1"
    by (simp add: fresh_def)
  from correlation_ids_increase [OF h]
  have "map allocated (steps ?calls (fresh registry))
      = map (\<lambda>k. [correlationIds (fresh registry) + k]) [0 ..< length ?calls]"
    by blast
  then have "map allocated (steps ?calls (fresh registry)) = [[0], [1], [2]]"
    by (simp add: fresh_def upt_conv_Cons del: steps.simps)
  with h show ?thesis by blast
qed

text \<open>
  The claim as it stands, for every sequence of invocations, fails: on a new service
  the invocations number \<open>2 ^ 53\<close> and \<open>2 ^ 53 + 1\<close> (counting from 0) both allocate
  the id \<open>2 ^ 53\<close>.
\<close>

theorem correlation_ids_repeat_counterexample:
  "map allocated (steps (replicate (2 ^ 53 + 2) (envOk, Delete (fileUri [''a'']) None)) (fresh []))
       ! (2 ^ 53) = [2 ^ 53]
   \<and> map allocated (steps (replicate (2 ^ 53 + 2) (envOk, Delete (fileUri [''a'']) None)) (fresh []))
       ! (2 ^ 53 + 1) = [2 ^ 53]"
proof -
  define n :: nat where "n = 2 ^ 53"
  define calls where "calls = replicate (n + 2) (envOk, Delete (fileUri [''a'']) None)"
  have len: "length calls = n + 2" by (simp add: calls_def)
  have c0: "correlationIds (fresh []) = 0" by (simp add: fresh_def)
  have nth: "map allocated (steps calls (fresh [])) ! k = [min k n]" if "k < n + 2" for k
    unfolding steps_allocated len c0 using that
    by (simp add: increment_saturates n_def del: upt_Suc)
  have "map allocated (steps calls (fresh [])) ! n = [n]"
    "map allocated (steps calls (fresh [])) ! (n + 1) = [n]"
    by (simp_all add: nth)
  then show ?thesis unfolding calls_def n_def by simp
qed

subsection \<open>C8: what did-run carries\<close>

text \<open>
  Claim C8, as amended. In a move or copy in which the file service is called and
  succeeds with metadata \<open>stat\<close>, the invocation returns \<open>stat\<close>, and its last action is
  the did-run broadcast, which carries the event of the will-run broadcast: the same
  correlation id, operation, target and source, and nothing else.
\<close>

theorem did_run_carries_descriptor:
  assumes "moveOrCopy env src tgt mv ow s = (r, s')"
    and "\<exists>a \<in> set (since s s'). isFsCall a"
    and "(if mv then fs_move env src tgt ow else fs_copy env src tgt ow) = Inr stat"
  shows "r = Inr stat
    \<and> (\<exists>mid. since s s'
          = WillRun \<lparr>correlationId = correlationIds s, operation = (if mv then MOVE else COPY),
                     target = tgt, source = Some src\<rparr>
            # mid
            @ [DidRun \<lparr>correlationId = correlationIds s, operation = (if mv then MOVE else COPY),
                       target = tgt, source = Some src\<rparr>]
        \<and> (\<forall>a \<in> set mid. broadcast a = []))"
proof -
  let ?req = "if mv then Move src tgt ow else Copy src tgt ow"
  from assms(1) have inv: "invoke env ?req s = (map_sum id Some r, s')"
    by (cases mv) (simp_all add: move_def copy_def)
  from assms(3) have del: "delegate env ?req = Inr (Some stat)"
    by (simp split: if_splits)
  have ev: "descriptor ?req (correlationIds s)
      = \<lparr>correlationId = correlationIds s, operation = (if mv then MOVE else COPY),
         target = tgt, source = Some src\<rparr>"
    by simp
  from inv show ?thesis
  proof (cases rule: invoke_shape)
    case ok
    let ?mid = "map (\<lambda>d. RevertCall d True) (resolved env s ?req)
        @ map RevertDone (resolved env s ?req) @ [fsCall ?req]"
    from ok(2) del have "r = Inr stat"
      by (cases r) simp_all
    moreover from ok(5) have "since s s' = WillRun (descriptor ?req (correlationIds s)) # ?mid
        @ [DidRun (descriptor ?req (correlationIds s))]"
      unfolding del by (simp del: resolved.simps descriptor.simps fsCall.simps)
    moreover have "\<forall>a \<in> set ?mid. broadcast a = []"
      by (auto simp del: resolved.simps fsCall.simps)
    ultimately show ?thesis unfolding ev by blast
  next
    case (reject pre d post e)
    from reject(7) assms(2) show ?thesis
      by (auto simp del: resolved.simps fsCall.simps descriptor.simps)
  qed
qed

text \<open>
  A move from \<^verbatim>\<open>file:/a\<close> to \<^verbatim>\<open>file:/z\<close> with a file service that returns 1.
\<close>

theorem did_run_carries_descriptor_witness:
  "moveOrCopy envOk (fileUri [''a'']) (fileUri [''z'']) True None (fresh registry)
     = (Inr 1, snd (moveOrCopy envOk (fileUri [''a'']) (fileUri [''z'']) True None (fresh registry)))
   \<and> (\<exists>a \<in> set (since (fresh registry)
          (snd (moveOrCopy envOk (fileUri [''a'']) (fileUri [''z'']) True None (fresh registry)))).
        isFsCall a)
   \<and> fs_move envOk (fileUri [''a'']) (fileUri [''z'']) None = Inr 1
   \<and> last (since (fresh registry)
        (snd (moveOrCopy envOk (fileUri [''a'']) (fileUri [''z'']) True None (fresh registry))))
      = DidRun \<lparr>correlationId = 0, operation = MOVE, target = fileUri [''z''],
                source = Some (fileUri [''a''])\<rparr>"
proof -
  let ?s' = "snd (moveOrCopy envOk (fileUri [''a'']) (fileUri [''z'']) True None (fresh registry))"
  have h1: "moveOrCopy envOk (fileUri [''a'']) (fileUri [''z'']) True None (fresh registry)
      = (Inr 1, ?s')"
    and h2: "\<exists>a \<in> set (since (fresh registry) ?s'). isFsCall a"
    and h3: "(if True then fs_move envOk (fileUri [''a'']) (fileUri [''z'']) None
              else fs_copy envOk (fileUri [''a'']) (fileUri [''z'']) None) = Inr 1"
    by (simp_all add: ev_defs)
  from did_run_carries_descriptor [OF h1 h2 h3]
  have "last (since (fresh registry) ?s')
      = DidRun \<lparr>correlationId = 0, operation = MOVE, target = fileUri [''z''],
                source = Some (fileUri [''a''])\<rparr>"
    by (auto simp: fresh_def)
  moreover from h3 have "fs_move envOk (fileUri [''a'']) (fileUri [''z'']) None = Inr 1"
    by simp
  ultimately show ?thesis using h1 h2 by blast
qed

text \<open>
  The claim as it stands, that did-run carries the metadata, fails: the same move with
  a file service that returns 1 and with one that returns 2 ends with the same did-run
  event, which holds the correlation id, the operation, the target and the source.
\<close>

theorem did_run_metadata_counterexample:
  "fst (move envOk (fileUri [''a'']) (fileUri [''z'']) None (fresh registry)) = Inr 1
   \<and> fst (move envOther (fileUri [''a'']) (fileUri [''z'']) None (fresh registry)) = Inr 2
   \<and> last (trace (snd (move envOk (fileUri [''a'']) (fileUri [''z'']) None (fresh registry))))
      = DidRun \<lparr>correlationId = 0, operation = MOVE, target = fileUri [''z''],
                source = Some (fileUri [''a''])\<rparr>
   \<and> last (trace (snd (move envOther (fileUri [''a'']) (fileUri [''z'']) None (fresh registry))))
      = DidRun \<lparr>correlationId = 0, operation = MOVE, target = fileUri [''z''],
                source = Some (fileUri [''a''])\<rparr>"
  by (simp add: ev_defs)

subsection \<open>C9: a rejecting revert\<close>

text \<open>
  Claim C9. In an invocation of move, copy or delete in which the soft revert of some
  resolved dirty working copy rejects, the invocation rejects with the error of a
  revert that rejected, the file service is not called, and neither did-fail nor
  did-run is broadcast.
\<close>

theorem revert_rejection:
  assumes "invoke env req s = (r, s')"
    and "d \<in> set (resolved env s req)"
    and "revert_rejects env d = Some e0"
  shows "(\<exists>d' e. d' \<in> set (resolved env s req) \<and> revert_rejects env d' = Some e
            \<and> RevertFailed d' \<in> set (since s s') \<and> r = Inl e)
    \<and> (\<forall>a \<in> set (since s s'). \<not> isFsCall a \<and> \<not> isDidFail a \<and> \<not> isDidRun a)"
  using assms(1)
proof (cases rule: invoke_shape)
  case ok
  with assms(2,3) show ?thesis by auto
next
  case (reject pre d' post e)
  have "d' \<in> set (resolved env s req)" using reject(1) by simp
  moreover from reject(7) have "RevertFailed d' \<in> set (since s s')" by simp
  moreover from reject(7)
  have "\<forall>a \<in> set (since s s'). \<not> isFsCall a \<and> \<not> isDidFail a \<and> \<not> isDidRun a"
    by (auto simp del: resolved.simps)
  ultimately show ?thesis using reject(3,4) by blast
qed

text \<open>
  A move from \<^verbatim>\<open>file:/a\<close> to \<^verbatim>\<open>file:/z\<close> where the revert of working copy 0 rejects.
\<close>

theorem revert_rejection_witness:
  "invoke envRevertFail (Move (fileUri [''a'']) (fileUri [''z'']) None) (fresh registry)
     = (Inl ''revert failed'',
        snd (invoke envRevertFail (Move (fileUri [''a'']) (fileUri [''z'']) None) (fresh registry)))
   \<and> 0 \<in> set (resolved envRevertFail (fresh registry) (Move (fileUri [''a'']) (fileUri [''z'']) None))
   \<and> revert_rejects envRevertFail 0 = Some ''revert failed''
   \<and> \<not> (\<exists>a \<in> set (since (fresh registry)
            (snd (invoke envRevertFail (Move (fileUri [''a'']) (fileUri [''z'']) None) (fresh registry)))).
          isFsCall a \<or> isDidFail a \<or> isDidRun a)"
proof -
  let ?req = "Move (fileUri [''a'']) (fileUri [''z'']) None"
  let ?s' = "snd (invoke envRevertFail ?req (fresh registry))"
  have h1: "invoke envRevertFail ?req (fresh registry) = (Inl ''revert failed'', ?s')"
    and h2: "0 \<in> set (resolved envRevertFail (fresh registry) ?req)"
    and h3: "revert_rejects envRevertFail 0 = Some ''revert failed''"
    by (simp_all add: ev_defs)
  from revert_rejection [OF h1 h2 h3]
  have "\<not> (\<exists>a \<in> set (since (fresh registry) ?s'). isFsCall a \<or> isDidFail a \<or> isDidRun a)"
    by blast
  with h1 h2 h3 show ?thesis by blast
qed

subsection \<open>C10: a working copy under both source and target\<close>

text \<open>
  Claim C10, as amended. In a move, a dirty working copy whose resource equals the
  source, or is a descendant of the source where the file service can handle the
  source, and whose resource likewise equals the target, or is a descendant of the
  target where the file service can handle the target, has its \<^verbatim>\<open>revert\<close> called with
  \<^verbatim>\<open>soft: true\<close> exactly twice: the list for the source and the list for the target
  are concatenated as they are.
\<close>

theorem move_reverts_twice:
  assumes "d < length (workingCopies s)"
    and "dirty (workingCopies s ! d)"
    and "resource (workingCopies s ! d) = src
         \<or> (canHandleResource env src \<and> descendant (resource (workingCopies s ! d)) src)"
    and "resource (workingCopies s ! d) = tgt
         \<or> (canHandleResource env tgt \<and> descendant (resource (workingCopies s ! d)) tgt)"
  shows "count_list (since s (snd (move env src tgt ow s))) (RevertCall d True) = 2"
proof -
  have sel: "d \<in> set (getDirtyWorkingCopies env s t)"
    if "resource (workingCopies s ! d) = t
        \<or> (canHandleResource env t \<and> descendant (resource (workingCopies s ! d)) t)" for t
    using that assms(1,2)
    by (auto simp: getDirty_set isEqualOrParent_def isEqual_def descendant_def strict_prefix_def)
  from sel [OF assms(3)] sel [OF assms(4)] show ?thesis
    by (rule move_count_selected)
qed

text \<open>
  A move from \<^verbatim>\<open>file:/a\<close> to \<^verbatim>\<open>file:/a/file.txt\<close>: the dirty working copy at
  \<^verbatim>\<open>file:/a/file.txt\<close> is below the source, which the file service can handle, and at
  the target.
\<close>

theorem move_reverts_twice_witness:
  "(0::nat) < length (workingCopies (fresh registry))
   \<and> dirty (workingCopies (fresh registry) ! 0)
   \<and> canHandleResource envOk (fileUri [''a''])
   \<and> descendant (resource (workingCopies (fresh registry) ! 0)) (fileUri [''a''])
   \<and> resource (workingCopies (fresh registry) ! 0) = fileUri [''a'', ''file.txt'']
   \<and> count_list (since (fresh registry)
        (snd (move envOk (fileUri [''a'']) (fileUri [''a'', ''file.txt'']) None (fresh registry))))
        (RevertCall 0 True) = 2"
proof -
  have h1: "(0::nat) < length (workingCopies (fresh registry))"
    and h2: "dirty (workingCopies (fresh registry) ! 0)"
    and h3: "canHandleResource envOk (fileUri [''a''])"
    and h4: "descendant (resource (workingCopies (fresh registry) ! 0)) (fileUri [''a''])"
    and h5: "resource (workingCopies (fresh registry) ! 0) = fileUri [''a'', ''file.txt'']"
    by (simp_all add: ev_defs)
  from h3 h4 have src: "resource (workingCopies (fresh registry) ! 0) = fileUri [''a'']
      \<or> (canHandleResource envOk (fileUri [''a''])
          \<and> descendant (resource (workingCopies (fresh registry) ! 0)) (fileUri [''a'']))"
    by simp
  from h5 have tgt: "resource (workingCopies (fresh registry) ! 0) = fileUri [''a'', ''file.txt'']
      \<or> (canHandleResource envOk (fileUri [''a'', ''file.txt''])
          \<and> descendant (resource (workingCopies (fresh registry) ! 0))
                (fileUri [''a'', ''file.txt'']))"
    by simp
  from move_reverts_twice [OF h1 h2 src tgt, of None]
  have "count_list (since (fresh registry)
        (snd (move envOk (fileUri [''a'']) (fileUri [''a'', ''file.txt'']) None (fresh registry))))
        (RevertCall 0 True) = 2" .
  with h1 h2 h3 h4 h5 show ?thesis by simp
qed

text \<open>
  The claim as it stands, for every working copy that is equal to or a descendant of
  both, fails: under a scheme the file service cannot handle,
  \<^verbatim>\<open>getDirtyWorkingCopies\<close> compares with \<^verbatim>\<open>isEqual\<close> only. The dirty working copy at
  \<^verbatim>\<open>untitled:/a/file.txt\<close> is a descendant of \<^verbatim>\<open>untitled:/a\<close>. In a move from
  \<^verbatim>\<open>untitled:/a\<close> to \<^verbatim>\<open>untitled:/a/file.txt\<close> its \<^verbatim>\<open>revert\<close> is called once, for the
  target; in a move from \<^verbatim>\<open>untitled:/a\<close> to \<^verbatim>\<open>untitled:/a\<close>, where it is a descendant
  of both, it is not called at all.
\<close>

theorem move_reverts_twice_counterexample:
  "dirty (workingCopies (fresh registry) ! 4)
   \<and> descendant (resource (workingCopies (fresh registry) ! 4)) (untitledUri [''a''])
   \<and> resource (workingCopies (fresh registry) ! 4) = untitledUri [''a'', ''file.txt'']
   \<and> count_list (since (fresh registry)
        (snd (move envOk (untitledUri [''a'']) (untitledUri [''a'', ''file.txt'']) None
               (fresh registry))))
        (RevertCall 4 True) = 1
   \<and> count_list (since (fresh registry)
        (snd (move envOk (untitledUri [''a'']) (untitledUri [''a'']) None (fresh registry))))
        (RevertCall 4 True) = 0"
  by (simp add: ev_defs)

end
